theory Spec2Isabelle
  imports Main "HOL-Library.Sublist"
begin

section \<open>The directory scanner of \<^verbatim>\<open>security-step-1-indexer.py\<close>\<close>

text \<open>
  The script walks a directory tree, filters entries through a substring ignore list and
  through the rules of a \<^verbatim>\<open>.gitignore\<close> file, and builds a manifest of folder and file
  records. The model below follows the script function by function. The Python library
  calls it makes (\<^verbatim>\<open>re.match\<close>, \<^verbatim>\<open>uuid.uuid4\<close>, \<^verbatim>\<open>hashlib.sha256\<close>,
  \<^verbatim>\<open>mimetypes.guess_type\<close>, \<^verbatim>\<open>datetime.fromtimestamp\<close>, \<^verbatim>\<open>os.path.abspath\<close>) are
  fields of an environment record; the file system the script reads is a tree value.
  Strings are character lists, one \<^typ>\<open>char\<close> per character of the Python string.
\<close>

subsection \<open>Strings and paths\<close>

definition backslash :: char where
  "backslash = CHR 0x5C"

definition newline :: char where
  "newline = CHR 0x0A"

text \<open>\<^verbatim>\<open>s.startswith(p)\<close> and \<^verbatim>\<open>s.endswith(p)\<close>.\<close>

definition startswith :: "string \<Rightarrow> string \<Rightarrow> bool" where
  "startswith s p = prefix p s"

definition endswith :: "string \<Rightarrow> string \<Rightarrow> bool" where
  "endswith s p = suffix p s"

text \<open>\<^verbatim>\<open>sub in s\<close> on strings: \<open>sub\<close> occurs in \<open>s\<close> as a contiguous run.\<close>

fun contains :: "string \<Rightarrow> string \<Rightarrow> bool" where
  "contains sub [] = (sub = [])"
| "contains sub (x # xs) = (prefix sub (x # xs) \<or> contains sub xs)"

text \<open>\<^verbatim>\<open>any(pattern in name for pattern in ignore_patterns)\<close>.\<close>

definition any_pattern_in :: "string list \<Rightarrow> string \<Rightarrow> bool" where
  "any_pattern_in ignore_patterns name = list_ex (\<lambda>pattern. contains pattern name) ignore_patterns"

text \<open>\<^verbatim>\<open>s.replace(c, r)\<close> for a one-character \<open>c\<close>.\<close>

definition replace_char :: "char \<Rightarrow> string \<Rightarrow> string \<Rightarrow> string" where
  "replace_char c r s = concat (map (\<lambda>x. if x = c then r else [x]) s)"

text \<open>
  \<^verbatim>\<open>os.path.join(a, b)\<close> of \<^verbatim>\<open>posixpath\<close>: an absolute second component replaces the
  first, otherwise the two are joined by one separator.
\<close>

definition path_join :: "string \<Rightarrow> string \<Rightarrow> string" where
  "path_join a b =
     (if startswith b ''/'' then b
      else if a = [] \<or> endswith a ''/'' then a @ b
      else a @ ''/'' @ b)"

text \<open>
  \<^verbatim>\<open>os.path.splitext(p)[1]\<close>: the part from the last dot of the base name on, unless
  only dots stand before it in the base name.
\<close>

definition splitext_ext :: "string \<Rightarrow> string" where
  "splitext_ext p =
     (let base = rev (takeWhile (\<lambda>c. c \<noteq> CHR ''/'') (rev p));
          ext_rev = takeWhile (\<lambda>c. c \<noteq> CHR ''.'') (rev base);
          stem_rev = dropWhile (\<lambda>c. c \<noteq> CHR ''.'') (rev base)
      in if stem_rev = [] \<or> list_all (\<lambda>c. c = CHR ''.'') (tl stem_rev) then []
         else CHR ''.'' # rev ext_rev)"

text \<open>
  \<^verbatim>\<open>line.strip()\<close>: leading and trailing white space removed (the ASCII white space of
  \<^verbatim>\<open>str.isspace\<close>).
\<close>

definition is_space :: "char \<Rightarrow> bool" where
  "is_space c = (c \<in> set [CHR 0x09, CHR 0x0A, CHR 0x0B, CHR 0x0C, CHR 0x0D,
                          CHR 0x1C, CHR 0x1D, CHR 0x1E, CHR 0x1F, CHR 0x20])"

definition strip :: "string \<Rightarrow> string" where
  "strip s = rev (dropWhile is_space (rev (dropWhile is_space s)))"

text \<open>
  The lines of a text file as \<^verbatim>\<open>for line in f\<close> yields them. The file is opened with
  universal newlines, so a line ends at a line feed or a carriage return; the terminator
  is dropped here, as \<open>strip\<close> removes it in the only caller.
\<close>

fun file_lines :: "string \<Rightarrow> string list" where
  "file_lines [] = []"
| "file_lines (c # cs) =
     (if c = CHR 0x0A \<or> c = CHR 0x0D then [] # file_lines cs
      else (case file_lines cs of [] \<Rightarrow> [[c]] | l # ls \<Rightarrow> (c # l) # ls))"

subsection \<open>A fragment of Python's regular expressions\<close>

text \<open>
  \<open>py_re_match pattern s\<close> models the truth value of \<^verbatim>\<open>re.match(pattern, s)\<close> for the
  patterns built from literal characters, a backslash before a character that is neither
  a letter nor a digit, the dot, a star after one of these, a leading \<^verbatim>\<open>^\<close> and a final
  \<^verbatim>\<open>$\<close>. On every other pattern it gives \<open>None\<close> and says nothing about Python. The dot
  matches every character but the line feed; \<^verbatim>\<open>$\<close> matches at the end of the string and
  before a line feed that ends it; \<^verbatim>\<open>re.match\<close> asks for a match of a prefix of \<open>s\<close>.
\<close>

datatype re_atom = Lit char | AnyChar

datatype re_item = Atom re_atom | Star re_atom | EndAnchor

definition is_alnum :: "char \<Rightarrow> bool" where
  "is_alnum c = (let n = of_char c :: nat in
     (48 \<le> n \<and> n \<le> 57) \<or> (65 \<le> n \<and> n \<le> 90) \<or> (97 \<le> n \<and> n \<le> 122))"

definition re_special :: "char \<Rightarrow> bool" where
  "re_special c = (c \<in> set ''*+?{}[]()|^$'')"

fun re_parse :: "string \<Rightarrow> re_item list option"
  and re_quantified :: "re_atom \<Rightarrow> string \<Rightarrow> re_item list option" where
  "re_parse [] = Some []"
| "re_parse (c # cs) =
     (if c = backslash then
        (case cs of
           [] \<Rightarrow> None
         | e # rest \<Rightarrow> if is_alnum e then None else re_quantified (Lit e) rest)
      else if c = CHR ''.'' then re_quantified AnyChar cs
      else if c = CHR ''$'' \<and> cs = [] then Some [EndAnchor]
      else if re_special c then None
      else re_quantified (Lit c) cs)"
| "re_quantified a [] = Some [Atom a]"
| "re_quantified a (q # rest) =
     (if q = CHR ''*'' then map_option (Cons (Star a)) (re_parse rest)
      else map_option (Cons (Atom a)) (re_parse (q # rest)))"

fun atom_ok :: "re_atom \<Rightarrow> char \<Rightarrow> bool" where
  "atom_ok (Lit c) x = (x = c)"
| "atom_ok AnyChar x = (x \<noteq> newline)"

fun re_run :: "re_item list \<Rightarrow> string \<Rightarrow> bool" where
  "re_run [] s = True"
| "re_run (EndAnchor # r) s = ((s = [] \<or> s = [newline]) \<and> re_run r s)"
| "re_run (Atom a # r) s = (case s of [] \<Rightarrow> False | x # xs \<Rightarrow> atom_ok a x \<and> re_run r xs)"
| "re_run (Star a # r) s =
     (re_run r s \<or> (case s of [] \<Rightarrow> False | x # xs \<Rightarrow> atom_ok a x \<and> re_run (Star a # r) xs))"

definition py_re_match :: "string \<Rightarrow> string \<Rightarrow> bool option" where
  "py_re_match pattern s =
     map_option (\<lambda>items. re_run items s)
       (re_parse (if startswith pattern ''^'' then tl pattern else pattern))"

subsection \<open>Outcomes of a call\<close>

text \<open>
  A call of the script returns a value, raises an exception that nothing in the script
  catches before \<^verbatim>\<open>main\<close>, or does not return. The only exception raised outside a
  \<^verbatim>\<open>try\<close> block is the \<^verbatim>\<open>re.error\<close> of \<^verbatim>\<open>re.match\<close> on a malformed pattern.
\<close>

datatype error = RegexError

datatype 'a outcome = is_returns: Returns 'a | Raises error | Diverges

fun bind :: "'a outcome \<Rightarrow> ('a \<Rightarrow> 'b outcome) \<Rightarrow> 'b outcome" where
  "bind (Returns x) f = f x"
| "bind (Raises e) f = Raises e"
| "bind Diverges f = Diverges"

subsection \<open>The ignore-file matcher\<close>

text \<open>
  \<^verbatim>\<open>parse_gitignore\<close>, on the content of the file (\<open>None\<close>: the file cannot be opened or
  read, which the function answers with a warning and no patterns).
\<close>

definition parse_gitignore :: "string option \<Rightarrow> string list" where
  "parse_gitignore content =
     (case content of
        None \<Rightarrow> []
      | Some text \<Rightarrow>
          filter (\<lambda>line. line \<noteq> [] \<and> \<not> startswith line ''#'') (map strip (file_lines text)))"

text \<open>The regular expression \<^verbatim>\<open>is_ignored\<close> builds from one pattern line, and its sense.\<close>

definition is_negation :: "string \<Rightarrow> bool" where
  "is_negation pattern = startswith pattern ''!''"

definition regex_pattern :: "string \<Rightarrow> string" where
  "regex_pattern pattern =
     (let pattern = (if is_negation pattern then tl pattern else pattern);
          regex_pattern = pattern;
          regex_pattern = replace_char (CHR ''.'') [backslash, CHR ''.''] regex_pattern;
          regex_pattern = replace_char (CHR ''*'') ''.*'' regex_pattern;
          regex_pattern = replace_char (CHR ''?'') ''.'' regex_pattern;
          is_dir_only = endswith regex_pattern ''/'';
          regex_pattern = (if is_dir_only then butlast regex_pattern else regex_pattern);
          regex_pattern = (if CHR ''/'' \<notin> set regex_pattern then ''.*'' @ regex_pattern
                           else regex_pattern)
      in ''^'' @ regex_pattern @ ''$'')"

text \<open>
  The loop of \<^verbatim>\<open>is_ignored\<close> over the pattern lines: it returns from inside the loop at
  the first line whose expression matches.
\<close>

fun match_patterns :: "(string \<Rightarrow> string \<Rightarrow> bool option) \<Rightarrow> string \<Rightarrow> string list \<Rightarrow> bool outcome" where
  "match_patterns re_match check_path [] = Returns False"
| "match_patterns re_match check_path (pattern # patterns) =
     (case re_match (regex_pattern pattern) check_path of
        None \<Rightarrow> Raises RegexError
      | Some True \<Rightarrow> Returns (\<not> is_negation pattern)
      | Some False \<Rightarrow> match_patterns re_match check_path patterns)"

definition is_ignored ::
  "(string \<Rightarrow> string \<Rightarrow> bool option) \<Rightarrow> string \<Rightarrow> string \<Rightarrow> string list \<Rightarrow> bool outcome" where
  "is_ignored re_match file_path rel_path gitignore_patterns =
     (if gitignore_patterns = [] then Returns False
      else
        let check_path = (if rel_path \<noteq> [] then path_join ''.'' rel_path else ''.'')
        in match_patterns re_match check_path gitignore_patterns)"

subsection \<open>The file system and the library\<close>

text \<open>
  What \<^verbatim>\<open>os.stat\<close> returns for a file, and a file as the scan sees it: \<open>f_stat\<close> is
  \<open>None\<close> when \<^verbatim>\<open>os.stat\<close> raises, \<open>f_content\<close> is \<open>None\<close> when the file cannot be
  opened or read.
\<close>

record stat_result =
  st_ctime :: int
  st_mtime :: int
  st_size :: nat

record fs_file =
  f_stat :: "stat_result option"
  f_content :: "string option"

text \<open>
  A directory lists its subdirectories and its other entries by name, in the order
  \<^verbatim>\<open>os.walk\<close> reports them. A directory that cannot be listed yields nothing in
  \<^verbatim>\<open>os.walk\<close>; the scan reads the subdirectory names only to prune them, so such a
  directory is left out of the tree.
\<close>

datatype fs_dir = Dir (subdirs: "(string \<times> fs_dir) list") (entries: "(string \<times> fs_file) list")

text \<open>
  The library: \<open>uuid4 n\<close> is the string of the \<open>n\<close>-th call of \<^verbatim>\<open>uuid.uuid4\<close> in the
  run, \<open>re_match\<close> is \<^verbatim>\<open>re.match\<close> (\<open>None\<close>: it raises \<^verbatim>\<open>re.error\<close>), \<open>guess_type\<close> is
  the first component of \<^verbatim>\<open>mimetypes.guess_type\<close>, \<open>sha256_hexdigest\<close> the digest of a
  content, \<open>isoformat\<close> is \<^verbatim>\<open>datetime.fromtimestamp(t).isoformat()\<close> (\<open>None\<close>: it raises)
  and \<open>abspath\<close> is \<^verbatim>\<open>os.path.abspath\<close>.
\<close>

record env =
  uuid4 :: "nat \<Rightarrow> string"
  re_match :: "string \<Rightarrow> string \<Rightarrow> bool option"
  guess_type :: "string \<Rightarrow> string option"
  sha256_hexdigest :: "string \<Rightarrow> string"
  isoformat :: "int \<Rightarrow> string option"
  abspath :: "string \<Rightarrow> string"

subsection \<open>The manifest\<close>

record file_metadata =
  created_date :: string
  last_modified :: string
  last_reviewed :: string
  size_bytes :: nat
  hash :: string

record file_entry =
  file_id :: string
  folder :: string
  file_name :: string
  file_type :: string
  metadata :: file_metadata
  description :: string
  security_observations :: string

record folder_entry =
  path :: string
  files :: "file_entry list"

record scan_info =
  target_directory :: string
  total_folders :: nat
  total_files :: nat

record scan_result =
  scan_info :: scan_info
  folders :: "folder_entry list"

text \<open>
  The state of one run of \<^verbatim>\<open>scan_directory\<close>: the manifest so far, the set of
  identifiers handed out, the number of \<^verbatim>\<open>uuid4\<close> calls made, and the paths that
  \<^verbatim>\<open>calculate_file_hash\<close> has passed to \<^verbatim>\<open>open\<close>.
\<close>

record scan_state =
  result :: scan_result
  used_ids :: "string set"
  uuid_calls :: nat
  hash_opened :: "string list"

subsection \<open>Hashing and identifiers\<close>

text \<open>
  \<^verbatim>\<open>calculate_file_hash\<close>: the digest and the paths opened so far. With \<open>skip_hash\<close> the
  file is not opened; a failure to open or read gives \<^verbatim>\<open>"hash_error"\<close>.
\<close>

definition calculate_file_hash ::
  "env \<Rightarrow> string \<Rightarrow> fs_file \<Rightarrow> bool \<Rightarrow> string list \<Rightarrow> string \<times> string list" where
  "calculate_file_hash e file_path f skip_hash opened =
     (if skip_hash then (''skipped'', opened)
      else
        (case f_content f of
           Some content \<Rightarrow> (sha256_hexdigest e content, opened @ [file_path])
         | None \<Rightarrow> (''hash_error'', opened @ [file_path])))"

text \<open>
  The loop \<^verbatim>\<open>while file_id in used_ids: file_id = str(uuid.uuid4())\<close> after a first
  draw: it returns the first draw from call \<open>n\<close> on that is not in \<open>used\<close>, with the
  number of calls made, and does not return when there is none.
\<close>

partial_function (option) fresh_uuid :: "(nat \<Rightarrow> string) \<Rightarrow> string set \<Rightarrow> nat \<Rightarrow> (string \<times> nat) option" where
  "fresh_uuid draw used n =
     (if draw n \<in> used then fresh_uuid draw used (Suc n) else Some (draw n, Suc n))"

declare fresh_uuid.simps [code]

subsection \<open>The scan\<close>

text \<open>
  \<^verbatim>\<open>os.walk(target_dir)\<close>, top down, with the pruning the loop body does on \<open>dirs\<close>: for
  each directory visited its path, the names from \<open>target_dir\<close> down to it, and its
  non-directory entries.
\<close>

fun walk :: "string list \<Rightarrow> string \<Rightarrow> string list \<Rightarrow> fs_dir \<Rightarrow> (string \<times> string list \<times> (string \<times> fs_file) list) list"
  and walk_dirs :: "string list \<Rightarrow> string \<Rightarrow> string list \<Rightarrow> (string \<times> fs_dir) list \<Rightarrow> (string \<times> string list \<times> (string \<times> fs_file) list) list" where
  "walk ignore_patterns root below (Dir dirs fs) =
     (root, below, fs) # walk_dirs ignore_patterns root below dirs"
| "walk_dirs ignore_patterns root below [] = []"
| "walk_dirs ignore_patterns root below ((d, t) # dirs) =
     (if any_pattern_in ignore_patterns d then []
      else walk ignore_patterns (path_join root d) (below @ [d]) t)
     @ walk_dirs ignore_patterns root below dirs"

text \<open>
  \<^verbatim>\<open>os.path.relpath(root, target_dir)\<close> for a directory of the walk, from the names that
  lead to it.
\<close>

fun join_names :: "string list \<Rightarrow> string" where
  "join_names [] = []"
| "join_names [d] = d"
| "join_names (d # ds) = d @ ''/'' @ join_names ds"

definition relpath :: "string list \<Rightarrow> string" where
  "relpath below = (if below = [] then ''.'' else join_names below)"

text \<open>
  The \<open>rel_path\<close> of the loop body (the top directory itself becomes the empty string)
  and the \<open>file_rel_path\<close> of a file in it.
\<close>

definition folder_rel_path :: "string list \<Rightarrow> string" where
  "folder_rel_path below = (let rel_path = relpath below in if rel_path = ''.'' then [] else rel_path)"

definition file_rel_path :: "string \<Rightarrow> string \<Rightarrow> string" where
  "file_rel_path rel_path filename = (if rel_path \<noteq> [] then path_join rel_path filename else filename)"

text \<open>
  The \<open>file_type\<close> of a file: the guessed MIME type, or \<^verbatim>\<open>unknown\<close> followed by the
  extension when the guess is \<^verbatim>\<open>None\<close> or empty.
\<close>

definition file_type_of :: "env \<Rightarrow> string \<Rightarrow> string" where
  "file_type_of e filename =
     (let file_extension = splitext_ext filename
      in case guess_type e filename of
           None \<Rightarrow> ''unknown'' @ file_extension
         | Some t \<Rightarrow> if t = [] then ''unknown'' @ file_extension else t)"

text \<open>The two file entries the loop body builds.\<close>

definition ok_entry ::
  "string \<Rightarrow> string \<Rightarrow> string \<Rightarrow> string \<Rightarrow> string \<Rightarrow> string \<Rightarrow> nat \<Rightarrow> string \<Rightarrow> file_entry" where
  "ok_entry fid rel_path filename ftype created_time modified_time file_size file_hash =
     \<lparr>file_id = fid, folder = rel_path, file_name = filename, file_type = ftype,
      metadata = \<lparr>created_date = created_time, last_modified = modified_time,
                  last_reviewed = [], size_bytes = file_size, hash = file_hash\<rparr>,
      description = [], security_observations = []\<rparr>"

definition error_entry :: "string \<Rightarrow> string \<Rightarrow> string \<Rightarrow> string \<Rightarrow> file_entry" where
  "error_entry fid rel_path filename ftype =
     \<lparr>file_id = fid, folder = rel_path, file_name = filename, file_type = ftype,
      metadata = \<lparr>created_date = [], last_modified = [], last_reviewed = [],
                  size_bytes = 0, hash = ''error''\<rparr>,
      description = ''Error processing file'',
      security_observations = ''File could not be processed, may require manual review''\<rparr>"

text \<open>
  The \<^verbatim>\<open>try\<close> block of the loop body: the entry of a file and the paths opened. Any
  exception of \<^verbatim>\<open>os.stat\<close> or of the two time conversions leads to the error entry; the
  hash is computed after them, and \<^verbatim>\<open>calculate_file_hash\<close> raises nothing.
\<close>

definition make_entry ::
  "env \<Rightarrow> bool \<Rightarrow> string \<Rightarrow> string \<Rightarrow> string \<Rightarrow> string \<Rightarrow> string \<Rightarrow> fs_file \<Rightarrow> string list
     \<Rightarrow> file_entry \<times> string list" where
  "make_entry e skip_hash fid file_path rel_path filename ftype f opened =
     (case f_stat f of
        None \<Rightarrow> (error_entry fid rel_path filename ftype, opened)
      | Some file_stats \<Rightarrow>
          (case isoformat e (st_ctime file_stats) of
             None \<Rightarrow> (error_entry fid rel_path filename ftype, opened)
           | Some created_time \<Rightarrow>
               (case isoformat e (st_mtime file_stats) of
                  None \<Rightarrow> (error_entry fid rel_path filename ftype, opened)
                | Some modified_time \<Rightarrow>
                    (let file_size = st_size file_stats;
                         (file_hash, opened') = calculate_file_hash e file_path f skip_hash opened
                     in (ok_entry fid rel_path filename ftype created_time modified_time
                           file_size file_hash, opened')))))"

text \<open>
  The body of \<^verbatim>\<open>for filename in files\<close> for one file: \<open>fs\<close> is the file list of the
  folder entry under construction.
\<close>

definition scan_file ::
  "env \<Rightarrow> string list \<Rightarrow> string list \<Rightarrow> bool \<Rightarrow> string \<Rightarrow> string \<Rightarrow> string \<times> fs_file
     \<Rightarrow> file_entry list \<times> scan_state \<Rightarrow> (file_entry list \<times> scan_state) outcome" where
  "scan_file e ignore_patterns gitignore_patterns skip_hash root rel_path nf acc =
     (let (filename, f) = nf; (fs, st) = acc in
      if any_pattern_in ignore_patterns filename then Returns (fs, st)
      else
        let file_path = path_join root filename
        in bind (is_ignored (re_match e) file_path (file_rel_path rel_path filename)
                   gitignore_patterns) (\<lambda>ignored.
             if ignored then Returns (fs, st)
             else
               (case fresh_uuid (uuid4 e) (used_ids st) (uuid_calls st) of
                  None \<Rightarrow> Diverges
                | Some (fid, calls) \<Rightarrow>
                    (let ftype = file_type_of e filename;
                         (entry, opened) =
                            make_entry e skip_hash fid file_path rel_path filename ftype f
                              (hash_opened st)
                     in Returns (fs @ [entry],
                          st\<lparr>used_ids := insert fid (used_ids st), uuid_calls := calls,
                             hash_opened := opened\<rparr>)))))"

fun scan_files ::
  "env \<Rightarrow> string list \<Rightarrow> string list \<Rightarrow> bool \<Rightarrow> string \<Rightarrow> string \<Rightarrow> (string \<times> fs_file) list
     \<Rightarrow> file_entry list \<times> scan_state \<Rightarrow> (file_entry list \<times> scan_state) outcome" where
  "scan_files e ignore_patterns gitignore_patterns skip_hash root rel_path [] acc = Returns acc"
| "scan_files e ignore_patterns gitignore_patterns skip_hash root rel_path (nf # nfs) acc =
     bind (scan_file e ignore_patterns gitignore_patterns skip_hash root rel_path nf acc)
       (scan_files e ignore_patterns gitignore_patterns skip_hash root rel_path nfs)"

text \<open>The end of the loop body of the walk: only folders that have files are added.\<close>

definition add_folder :: "folder_entry \<Rightarrow> scan_result \<Rightarrow> scan_result" where
  "add_folder fe r =
     (if files fe \<noteq> [] then
        r\<lparr>folders := folders r @ [fe],
          scan_info := (scan_info r)\<lparr>total_folders := total_folders (scan_info r) + 1,
                                    total_files := total_files (scan_info r) + length (files fe)\<rparr>\<rparr>
      else r)"

text \<open>The body of \<^verbatim>\<open>for root, dirs, files in os.walk(target_dir)\<close> for one directory.\<close>

definition scan_folder ::
  "env \<Rightarrow> string list \<Rightarrow> string list \<Rightarrow> bool \<Rightarrow> string \<times> string list \<times> (string \<times> fs_file) list
     \<Rightarrow> scan_state \<Rightarrow> scan_state outcome" where
  "scan_folder e ignore_patterns gitignore_patterns skip_hash visit st =
     (let (root, below, fs) = visit in
      if any_pattern_in ignore_patterns root then Returns st
      else
        let rel_path = folder_rel_path below
        in bind (scan_files e ignore_patterns gitignore_patterns skip_hash root rel_path fs ([], st))
             (\<lambda>(entries, st').
                Returns (st'\<lparr>result := add_folder \<lparr>path = rel_path, files = entries\<rparr> (result st')\<rparr>)))"

fun scan_folders ::
  "env \<Rightarrow> string list \<Rightarrow> string list \<Rightarrow> bool \<Rightarrow> (string \<times> string list \<times> (string \<times> fs_file) list) list
     \<Rightarrow> scan_state \<Rightarrow> scan_state outcome" where
  "scan_folders e ignore_patterns gitignore_patterns skip_hash [] st = Returns st"
| "scan_folders e ignore_patterns gitignore_patterns skip_hash (visit # visits) st =
     bind (scan_folder e ignore_patterns gitignore_patterns skip_hash visit st)
       (scan_folders e ignore_patterns gitignore_patterns skip_hash visits)"

text \<open>
  The head of \<^verbatim>\<open>scan_directory\<close>: the default ignore list, and the patterns of the
  \<^verbatim>\<open>.gitignore\<close> at the top of the tree when there is one (\<^verbatim>\<open>os.path.isfile\<close> holds for
  an entry that \<^verbatim>\<open>os.stat\<close> accepts).
\<close>

definition default_ignore_patterns :: "string list" where
  "default_ignore_patterns = [''.git'', ''__pycache__'', ''venv'', ''node_modules'', ''.DS_Store'']"

definition effective_ignore_patterns :: "string list option \<Rightarrow> string list" where
  "effective_ignore_patterns ignore_patterns =
     (case ignore_patterns of None \<Rightarrow> default_ignore_patterns | Some ps \<Rightarrow> ps)"

definition read_gitignore :: "fs_dir \<Rightarrow> bool \<Rightarrow> string list" where
  "read_gitignore tree use_gitignore =
     (case map_of (entries tree) ''.gitignore'' of
        None \<Rightarrow> []
      | Some f \<Rightarrow> if use_gitignore \<and> f_stat f \<noteq> None then parse_gitignore (f_content f) else [])"

definition initial_state :: "env \<Rightarrow> string \<Rightarrow> scan_state" where
  "initial_state e target_dir =
     \<lparr>result = \<lparr>scan_info = \<lparr>target_directory = abspath e target_dir,
                               total_folders = 0, total_files = 0\<rparr>,
                 folders = []\<rparr>,
      used_ids = {}, uuid_calls = 0, hash_opened = []\<rparr>"

text \<open>
  \<^verbatim>\<open>scan_directory\<close> up to the value it returns, with the final state of the run in
  \<open>run_scan\<close>. The two time stamps added to \<open>scan_info\<close> after the walk and the writing
  of the YAML file are left out.
\<close>

definition run_scan ::
  "env \<Rightarrow> fs_dir \<Rightarrow> string \<Rightarrow> string list option \<Rightarrow> bool \<Rightarrow> bool \<Rightarrow> scan_state outcome" where
  "run_scan e tree target_dir ignore_patterns use_gitignore skip_hash =
     (let ignore_patterns = effective_ignore_patterns ignore_patterns;
          gitignore_patterns = read_gitignore tree use_gitignore
      in scan_folders e ignore_patterns gitignore_patterns skip_hash
           (walk ignore_patterns target_dir [] tree) (initial_state e target_dir))"

definition scan_directory ::
  "env \<Rightarrow> fs_dir \<Rightarrow> string \<Rightarrow> string list option \<Rightarrow> bool \<Rightarrow> bool \<Rightarrow> scan_result outcome" where
  "scan_directory e tree target_dir ignore_patterns use_gitignore skip_hash =
     bind (run_scan e tree target_dir ignore_patterns use_gitignore skip_hash)
       (\<lambda>st. Returns (result st))"

subsection \<open>What the loops keep\<close>

text \<open>
  A file gets an entry when neither \<^verbatim>\<open>continue\<close> of the file loop is taken: no ignore
  substring occurs in its name and \<^verbatim>\<open>is_ignored\<close> returns \<^verbatim>\<open>False\<close>. A visited
  directory gets a folder entry when the \<^verbatim>\<open>continue\<close> of the walk loop is not taken and
  one of its files gets an entry.
\<close>

definition file_kept ::
  "env \<Rightarrow> string list \<Rightarrow> string list \<Rightarrow> string \<Rightarrow> string \<Rightarrow> string \<times> fs_file \<Rightarrow> bool" where
  "file_kept e ignore_patterns gitignore_patterns root rel_path nf =
     (\<not> any_pattern_in ignore_patterns (fst nf) \<and>
      is_ignored (re_match e) (path_join root (fst nf)) (file_rel_path rel_path (fst nf))
        gitignore_patterns = Returns False)"

definition folder_kept ::
  "env \<Rightarrow> string list \<Rightarrow> string list \<Rightarrow> string \<times> string list \<times> (string \<times> fs_file) list \<Rightarrow> bool" where
  "folder_kept e ignore_patterns gitignore_patterns visit =
     (\<not> any_pattern_in ignore_patterns (fst visit) \<and>
      list_ex (file_kept e ignore_patterns gitignore_patterns (fst visit)
                 (folder_rel_path (fst (snd visit))))
        (snd (snd visit)))"

subsection \<open>Well-formed trees and sample inputs\<close>

text \<open>A name of a directory entry is not empty and has no separator in it.\<close>

definition valid_name :: "string \<Rightarrow> bool" where
  "valid_name name = (name \<noteq> [] \<and> CHR ''/'' \<notin> set name)"

fun valid_tree :: "fs_dir \<Rightarrow> bool"
  and valid_dirs :: "(string \<times> fs_dir) list \<Rightarrow> bool" where
  "valid_tree (Dir dirs fs) = (valid_dirs dirs \<and> list_all (\<lambda>(name, f). valid_name name) fs)"
| "valid_dirs [] = True"
| "valid_dirs ((d, t) # dirs) = (valid_name d \<and> valid_tree t \<and> valid_dirs dirs)"

text \<open>
  A library for the sample runs: the \<open>n\<close>-th identifier is \<open>n + 1\<close> letters long, no MIME
  type is known, and \<^verbatim>\<open>re.match\<close> is the fragment above.
\<close>

definition demo_env :: env where
  "demo_env =
     \<lparr>uuid4 = (\<lambda>n. replicate (Suc n) (CHR ''u'')), re_match = py_re_match,
      guess_type = (\<lambda>name. None), sha256_hexdigest = (\<lambda>content. ''sha256:'' @ content),
      isoformat = (\<lambda>t. Some ''2024-05-01T10:00:00''), abspath = (\<lambda>p. p)\<rparr>"

text \<open>
  A readable file, a file whose metadata can be read and whose content cannot
  (permission denied), and an entry on which \<^verbatim>\<open>os.stat\<close> fails (a dangling link).
\<close>

definition plain_file :: "string \<Rightarrow> fs_file" where
  "plain_file content =
     \<lparr>f_stat = Some \<lparr>st_ctime = 0, st_mtime = 0, st_size = length content\<rparr>,
      f_content = Some content\<rparr>"

definition unreadable_file :: fs_file where
  "unreadable_file = \<lparr>f_stat = Some \<lparr>st_ctime = 0, st_mtime = 0, st_size = 7\<rparr>, f_content = None\<rparr>"

definition dangling_file :: fs_file where
  "dangling_file = \<lparr>f_stat = None, f_content = None\<rparr>"

definition tmp_tree :: fs_dir where
  "tmp_tree =
     Dir []
       [(''.gitignore'', plain_file (''*.tmp'' @ [newline] @ ''!keep.tmp'' @ [newline])),
        (''keep.tmp'', plain_file ''k''),
        (''other.tmp'', plain_file ''o''),
        (''notes.txt'', plain_file ''n'')]"

definition build_tree :: fs_dir where
  "build_tree =
     Dir [(''build'', Dir [] [(''output.bin'', plain_file ''xx'')]),
          (''src'', Dir [] [(''main.txt'', plain_file ''hello'')])]
       [(''.gitignore'', plain_file (''build/'' @ [newline]))]"

definition degraded_tree :: fs_dir where
  "degraded_tree =
     Dir [(''docs'', Dir [] [(''secret.key'', unreadable_file), (''dangling'', dangling_file),
                            (''readme.md'', plain_file ''hi'')])]
       []"

definition logs_tree :: "string \<Rightarrow> fs_dir" where
  "logs_tree gitignore =
     Dir [(''logs'', Dir [] [(''a.log'', plain_file ''x'')]),
          (''src'', Dir [] [(''main.txt'', plain_file ''hello'')])]
       [(''.gitignore'', plain_file gitignore)]"

subsection \<open>Properties of a manifest and of a run\<close>

text \<open>
  The two counts of \<open>scan_info\<close> agree with the folder list; the file entries of a manifest
  in order; and the bookkeeping of identifiers while a folder is being scanned: the
  identifiers of the entries made so far are pairwise distinct and all in \<open>used_ids\<close>.
\<close>

definition counts_ok :: "scan_result \<Rightarrow> bool" where
  "counts_ok r = (total_folders (scan_info r) = length (folders r) \<and>
     total_files (scan_info r) = sum_list (map (\<lambda>fe. length (files fe)) (folders r)))"

definition all_entries :: "scan_result \<Rightarrow> file_entry list" where
  "all_entries r = concat (map files (folders r))"

definition ids_ok :: "file_entry list \<Rightarrow> scan_state \<Rightarrow> bool" where
  "ids_ok fs st =
     (distinct (map file_id (all_entries (result st) @ fs)) \<and>
      file_id ` set (all_entries (result st) @ fs) \<subseteq> used_ids st)"

text \<open>
  An entry whose hash is the \<^verbatim>\<open>"skipped"\<close> sentinel, or whose description is empty, or
  else the error entry of its own identifier, folder, name and type.
\<close>

definition skipped_or_error :: "file_entry \<Rightarrow> bool" where
  "skipped_or_error en = (hash (metadata en) = ''skipped'' \<or>
     en = error_entry (file_id en) (folder en) (file_name en) (file_type en))"

definition blank_or_error :: "file_entry \<Rightarrow> bool" where
  "blank_or_error en = (description en = [] \<or>
     en = error_entry (file_id en) (folder en) (file_name en) (file_type en))"

text \<open>
  The path and file names of a folder entry, and the path and kept file names of a
  directory of the walk.
\<close>

definition folder_shape :: "folder_entry \<Rightarrow> string \<times> string list" where
  "folder_shape fe = (path fe, map file_name (files fe))"

definition visit_shape ::
  "env \<Rightarrow> string list \<Rightarrow> string list \<Rightarrow> string \<times> string list \<times> (string \<times> fs_file) list
     \<Rightarrow> string \<times> string list" where
  "visit_shape e ips gps visit =
     (folder_rel_path (fst (snd visit)),
      map fst (filter (file_kept e ips gps (fst visit) (folder_rel_path (fst (snd visit))))
                 (snd (snd visit))))"

section \<open>Lemmas\<close>

subsection \<open>Substrings and the roots of the walk\<close>

lemma contains_sublist: "contains sub s = sublist sub s"
  by (induction s) (cases sub; simp add: sublist_Cons_right)+

lemma any_pattern_in_prefix:
  assumes "any_pattern_in ps a" and "prefix a b"
  shows "any_pattern_in ps b"
  using assms unfolding any_pattern_in_def list_ex_iff contains_sublist
  by (meson prefix_imp_sublist sublist_order.order_trans)

lemma path_join_prefix: "valid_name d \<Longrightarrow> prefix root (path_join root d)"
  by (cases d) (auto simp: valid_name_def path_join_def startswith_def)

lemma walk_roots:
  "valid_tree t \<Longrightarrow> v \<in> set (walk ips root below t) \<Longrightarrow> prefix root (fst v)"
  "valid_dirs ds \<Longrightarrow> v \<in> set (walk_dirs ips root below ds) \<Longrightarrow> prefix root (fst v)"
proof (induction ips root below t and ips root below ds rule: walk_walk_dirs.induct)
  case (1 ips root below dirs fs)
  then show ?case by auto
next
  case (2 ips root below)
  then show ?case by simp
next
  case (3 ips root below d t dirs)
  then show ?case
    by (auto split: if_splits dest: prefix_order.trans [OF path_join_prefix])
qed

subsection \<open>Fresh identifiers\<close>

lemma fresh_uuid_fresh:
  assumes "fresh_uuid draw used n = Some (fid, calls)"
  shows "fid \<notin> used"
proof -
  have "fst (fid, calls) \<notin> used"
  proof (rule fresh_uuid.raw_induct [where P = "\<lambda>d u m y. fst y \<notin> u", OF _ assms])
    fix f d u m y
    assume "\<And>d u m y. f d u m = Some y \<Longrightarrow> fst y \<notin> u"
      and "(if d m \<in> u then f d u (Suc m) else Some (d m, Suc m)) = Some y"
    then show "fst y \<notin> u" by (auto split: if_splits)
  qed
  then show ?thesis by simp
qed

lemma fresh_uuid_skip:
  "\<forall>j<k. draw (n + j) \<in> used \<Longrightarrow> draw (n + k) \<notin> used \<Longrightarrow>
   fresh_uuid draw used n = Some (draw (n + k), Suc (n + k))"
proof (induction k arbitrary: n)
  case 0
  then show ?case by (subst fresh_uuid.simps) simp
next
  case (Suc k)
  have "draw n \<in> used" using Suc.prems(1) by (metis add.right_neutral zero_less_Suc)
  moreover have "fresh_uuid draw used (Suc n) = Some (draw (Suc n + k), Suc (Suc n + k))"
  proof (rule Suc.IH)
    show "\<forall>j<k. draw (Suc n + j) \<in> used"
      using Suc.prems(1) by (metis add_Suc_shift Suc_mono)
    show "draw (Suc n + k) \<notin> used" using Suc.prems(2) by simp
  qed
  ultimately show ?case by (subst fresh_uuid.simps) simp
qed

lemma fresh_uuid_returns:
  assumes "inj draw" and "finite used"
  shows "\<exists>fid calls. fresh_uuid draw used n = Some (fid, calls)"
proof -
  have "infinite (draw ` {n..})"
    using assms(1) by (meson finite_imageD infinite_Ici inj_on_subset subset_UNIV)
  then have "\<exists>m\<ge>n. draw m \<notin> used"
    using assms(2) by (metis atLeast_iff finite_subset image_subsetI)
  then obtain m where m: "n \<le> m" "draw m \<notin> used" by blast
  define k where "k = (LEAST k. draw (n + k) \<notin> used)"
  have ex: "draw (n + (m - n)) \<notin> used" using m by simp
  have "draw (n + k) \<notin> used" unfolding k_def using ex by (rule LeastI)
  moreover have "\<forall>j<k. draw (n + j) \<in> used"
    unfolding k_def using not_less_Least by blast
  ultimately show ?thesis using fresh_uuid_skip by blast
qed

subsection \<open>The matcher\<close>

lemma match_patterns_total:
  assumes "\<forall>p s. rm p s \<noteq> None"
  shows "\<exists>b. match_patterns rm cp ps = Returns b"
proof (induction ps)
  case Nil
  show ?case by (rule exI [of _ False]) simp
next
  case (Cons p ps)
  obtain b where "rm (regex_pattern p) cp = Some b" using assms by fastforce
  then show ?case using Cons by (cases b) simp_all
qed

lemma is_ignored_total:
  assumes "\<forall>p s. rm p s \<noteq> None"
  shows "\<exists>b. is_ignored rm fp rp gps = Returns b"
proof (cases "gps = []")
  case True
  then show ?thesis by (auto simp: is_ignored_def)
next
  case False
  then show ?thesis using match_patterns_total [OF assms] by (simp add: is_ignored_def Let_def)
qed

lemma match_patterns_first_match:
  assumes "\<forall>q \<in> set before. rm (regex_pattern q) cp = Some False"
    and "rm (regex_pattern p) cp = Some True"
  shows "match_patterns rm cp (before @ p # after) = Returns (\<not> is_negation p)"
  using assms by (induction before) simp_all

subsection \<open>One file, one folder\<close>

lemma map_outcome_Returns:
  "map_outcome g x = Returns v \<Longrightarrow> \<exists>r. x = Returns r \<and> g r = v"
  by (cases x) auto

lemma scan_file_skipped:
  assumes "\<not> file_kept e ips gps root rel (name, f)"
    and "scan_file e ips gps skip root rel (name, f) (fs, st) = Returns (fs', st')"
  shows "fs' = fs \<and> st' = st"
proof (cases "any_pattern_in ips name")
  case True
  then show ?thesis using assms(2) by (simp add: scan_file_def)
next
  case False
  then have ni: "is_ignored (re_match e) (path_join root name) (file_rel_path rel name) gps \<noteq> Returns False"
    using assms(1) by (simp add: file_kept_def)
  show ?thesis
  proof (cases "is_ignored (re_match e) (path_join root name) (file_rel_path rel name) gps")
    case (Returns b)
    then have "b" using ni by simp
    then show ?thesis using assms(2) False Returns by (simp add: scan_file_def Let_def)
  next
    case (Raises x)
    then show ?thesis using assms(2) False by (simp add: scan_file_def Let_def)
  next
    case Diverges
    then show ?thesis using assms(2) False by (simp add: scan_file_def Let_def)
  qed
qed

lemma scan_file_kept:
  assumes "file_kept e ips gps root rel (name, f)"
  shows "scan_file e ips gps skip root rel (name, f) (fs, st) =
     (case fresh_uuid (uuid4 e) (used_ids st) (uuid_calls st) of
        None \<Rightarrow> Diverges
      | Some (fid, calls) \<Rightarrow>
          Returns (fs @ [fst (make_entry e skip fid (path_join root name) rel name
                               (file_type_of e name) f (hash_opened st))],
                   st\<lparr>used_ids := insert fid (used_ids st), uuid_calls := calls,
                      hash_opened := snd (make_entry e skip fid (path_join root name) rel name
                               (file_type_of e name) f (hash_opened st))\<rparr>))"
  using assms
  by (simp add: file_kept_def scan_file_def Let_def split: option.splits prod.splits)

lemma scan_file_cases:
  assumes "scan_file e ips gps skip root rel (name, f) (fs, st) = Returns (fs', st')"
  obtains (skipped) "\<not> file_kept e ips gps root rel (name, f)" "fs' = fs" "st' = st"
  | (kept) fid calls where "file_kept e ips gps root rel (name, f)"
      "fresh_uuid (uuid4 e) (used_ids st) (uuid_calls st) = Some (fid, calls)"
      "fs' = fs @ [fst (make_entry e skip fid (path_join root name) rel name
                               (file_type_of e name) f (hash_opened st))]"
      "st' = st\<lparr>used_ids := insert fid (used_ids st), uuid_calls := calls,
                      hash_opened := snd (make_entry e skip fid (path_join root name) rel name
                               (file_type_of e name) f (hash_opened st))\<rparr>"
proof (cases "file_kept e ips gps root rel (name, f)")
  case False
  then show ?thesis using scan_file_skipped [OF False assms] skipped by blast
next
  case True
  show ?thesis
  proof (cases "fresh_uuid (uuid4 e) (used_ids st) (uuid_calls st)")
    case None
    then show ?thesis using assms by (simp add: scan_file_kept [OF True])
  next
    case (Some p)
    obtain fid calls where p: "p = (fid, calls)" by (cases p)
    show ?thesis
      using assms Some p by (intro kept [OF True, of fid calls]) (simp_all add: scan_file_kept [OF True])
  qed
qed

lemma scan_files_invariant:
  assumes step: "\<And>name f fs st fs' st'. I fs st \<Longrightarrow>
            scan_file e ips gps skip root rel (name, f) (fs, st) = Returns (fs', st') \<Longrightarrow> I fs' st'"
    and "I fs st"
    and "scan_files e ips gps skip root rel nfs (fs, st) = Returns (fs', st')"
  shows "I fs' st'"
  using assms(2,3)
proof (induction nfs arbitrary: fs st)
  case Nil
  then show ?case by simp
next
  case (Cons nf nfs)
  obtain name f where nf: "nf = (name, f)" by (cases nf)
  from Cons.prems(2) obtain fs1 st1 where
    one: "scan_file e ips gps skip root rel (name, f) (fs, st) = Returns (fs1, st1)"
    and rest: "scan_files e ips gps skip root rel nfs (fs1, st1) = Returns (fs', st')"
    unfolding nf by (cases "scan_file e ips gps skip root rel (name, f) (fs, st)") auto
  from step [OF Cons.prems(1) one] rest show ?case by (rule Cons.IH)
qed

lemma scan_folder_cases:
  assumes "scan_folder e ips gps skip (root, below, nfs) st = Returns st'"
  obtains (ignored) "any_pattern_in ips root" "st' = st"
  | (scanned) entries st1 where "\<not> any_pattern_in ips root"
      "scan_files e ips gps skip root (folder_rel_path below) nfs ([], st) = Returns (entries, st1)"
      "st' = st1\<lparr>result := add_folder \<lparr>path = folder_rel_path below, files = entries\<rparr> (result st1)\<rparr>"
proof (cases "any_pattern_in ips root")
  case True
  then show ?thesis using assms ignored by (simp add: scan_folder_def)
next
  case False
  show ?thesis
  proof (cases "scan_files e ips gps skip root (folder_rel_path below) nfs ([], st)")
    case (Returns p)
    obtain entries st1 where p: "p = (entries, st1)" by (cases p)
    show ?thesis
      using assms False Returns p
      by (intro scanned [OF False, of entries st1]) (simp_all add: scan_folder_def Let_def)
  next
    case (Raises x)
    then show ?thesis using assms False by (simp add: scan_folder_def Let_def)
  next
    case Diverges
    then show ?thesis using assms False by (simp add: scan_folder_def Let_def)
  qed
qed

lemma scan_folders_invariant:
  assumes step: "\<And>visit st st'. J st \<Longrightarrow>
            scan_folder e ips gps skip visit st = Returns st' \<Longrightarrow> J st'"
    and "J st"
    and "scan_folders e ips gps skip visits st = Returns st'"
  shows "J st'"
  using assms(2,3)
proof (induction visits arbitrary: st)
  case Nil
  then show ?case by simp
next
  case (Cons visit visits)
  from Cons.prems(2) obtain st1 where
    one: "scan_folder e ips gps skip visit st = Returns st1"
    and rest: "scan_folders e ips gps skip visits st1 = Returns st'"
    by (cases "scan_folder e ips gps skip visit st") auto
  from step [OF Cons.prems(1) one] rest show ?case by (rule Cons.IH)
qed

lemma scan_directory_run:
  "scan_directory e tree target ips use_gi skip = Returns r \<longleftrightarrow>
   (\<exists>st. run_scan e tree target ips use_gi skip = Returns st \<and> r = result st)"
  by (cases "run_scan e tree target ips use_gi skip") (auto simp: scan_directory_def)

lemma make_entry_cases:
  obtains (degraded) "fst (make_entry e skip fid fp rel name ftype f opened) = error_entry fid rel name ftype"
      "snd (make_entry e skip fid fp rel name ftype f opened) = opened"
      "f_stat f = None \<or> (\<exists>s. f_stat f = Some s \<and> (isoformat e (st_ctime s) = None \<or> isoformat e (st_mtime s) = None))"
  | (normal) s c m where "f_stat f = Some s" "isoformat e (st_ctime s) = Some c"
      "isoformat e (st_mtime s) = Some m"
      "fst (make_entry e skip fid fp rel name ftype f opened) =
         ok_entry fid rel name ftype c m (st_size s) (fst (calculate_file_hash e fp f skip opened))"
      "snd (make_entry e skip fid fp rel name ftype f opened) = snd (calculate_file_hash e fp f skip opened)"
proof (cases "f_stat f")
  case None
  then show ?thesis using degraded by (simp add: make_entry_def)
next
  case (Some s)
  show ?thesis
  proof (cases "isoformat e (st_ctime s)")
    case None
    then show ?thesis using Some degraded by (simp add: make_entry_def)
  next
    case c: (Some c)
    show ?thesis
    proof (cases "isoformat e (st_mtime s)")
      case None
      then show ?thesis using Some c degraded by (simp add: make_entry_def)
    next
      case m: (Some m)
      show ?thesis
        using Some c m
        by (intro normal [of s c m]) (simp_all add: make_entry_def Let_def split: prod.splits)
    qed
  qed
qed

lemma make_entry_id [simp]:
  "file_id (fst (make_entry e skip fid fp rel name ftype f opened)) = fid"
  by (cases rule: make_entry_cases [of e skip fid fp rel name ftype f opened])
    (simp_all add: error_entry_def ok_entry_def)

lemma make_entry_name [simp]:
  "file_name (fst (make_entry e skip fid fp rel name ftype f opened)) = name"
  by (cases rule: make_entry_cases [of e skip fid fp rel name ftype f opened])
    (simp_all add: error_entry_def ok_entry_def)

lemma error_entry_fields:
  "en = error_entry fid rel name ftype \<Longrightarrow>
   en = error_entry (file_id en) (folder en) (file_name en) (file_type en)"
  by (simp add: error_entry_def)

lemma make_entry_description:
  "description (fst (make_entry e skip fid fp rel name ftype f opened)) = [] \<or>
   fst (make_entry e skip fid fp rel name ftype f opened) = error_entry fid rel name ftype"
  by (cases rule: make_entry_cases [of e skip fid fp rel name ftype f opened])
    (simp_all add: ok_entry_def)

lemma make_entry_skipped:
  "(hash (metadata (fst (make_entry e True fid fp rel name ftype f opened))) = ''skipped'' \<or>
    fst (make_entry e True fid fp rel name ftype f opened) = error_entry fid rel name ftype) \<and>
   snd (make_entry e True fid fp rel name ftype f opened) = opened"
  by (cases rule: make_entry_cases [of e True fid fp rel name ftype f opened])
    (simp_all add: ok_entry_def calculate_file_hash_def)

lemma scan_files_result:
  assumes "scan_files e ips gps skip root rel nfs (fs, st) = Returns (fs', st')"
  shows "result st' = result st"
proof (rule scan_files_invariant [where I = "\<lambda>fs s. result s = result st", OF _ _ assms])
  fix name f fs0 st0 fs1 st1
  assume inv: "result st0 = result st"
    and one: "scan_file e ips gps skip root rel (name, f) (fs0, st0) = Returns (fs1, st1)"
  from one show "result st1 = result st"
    by (cases rule: scan_file_cases) (simp_all add: inv)
qed simp

lemma scan_files_entries:
  assumes P: "\<And>fid fp name f opened. P (fst (make_entry e skip fid fp rel name (file_type_of e name) f opened))"
    and "list_all P fs"
    and "scan_files e ips gps skip root rel nfs (fs, st) = Returns (fs', st')"
  shows "list_all P fs'"
proof (rule scan_files_invariant [where I = "\<lambda>fs s. list_all P fs", OF _ assms(2,3)])
  fix name f fs0 st0 fs1 st1
  assume inv: "list_all P fs0"
    and one: "scan_file e ips gps skip root rel (name, f) (fs0, st0) = Returns (fs1, st1)"
  from one show "list_all P fs1"
    by (cases rule: scan_file_cases) (simp_all add: inv P)
qed

lemma run_scan_entries:
  assumes P: "\<And>fid fp rel name f opened. P (fst (make_entry e skip fid fp rel name (file_type_of e name) f opened))"
    and run: "run_scan e tree target ips use_gi skip = Returns st"
  shows "list_all (\<lambda>fe. list_all P (files fe)) (folders (result st))"
proof -
  let ?J = "\<lambda>s. list_all (\<lambda>fe. list_all P (files fe)) (folders (result s))"
  have step: "?J s'" if "?J s" and "scan_folder e ips' gps skip visit s = Returns s'"
    for ips' gps visit s s'
  proof -
    obtain root below nfs where v: "visit = (root, below, nfs)" by (cases visit)
    from that(2) [unfolded v] show ?thesis
    proof (cases rule: scan_folder_cases)
      case ignored
      then show ?thesis using that(1) by simp
    next
      case (scanned entries s1)
      have "list_all P entries"
        by (rule scan_files_entries [where P = P and fs = "[]", OF P _ scanned(2)]) simp
      moreover have "result s1 = result s" using scan_files_result [OF scanned(2)] .
      ultimately show ?thesis using that(1) scanned(3) by (simp add: add_folder_def)
    qed
  qed
  have init: "?J (initial_state e target)" by (simp add: initial_state_def)
  have run': "scan_folders e (effective_ignore_patterns ips) (read_gitignore tree use_gi) skip
      (walk (effective_ignore_patterns ips) target [] tree) (initial_state e target) = Returns st"
    using run by (simp add: run_scan_def Let_def)
  show ?thesis
    by (rule scan_folders_invariant [where J = ?J, OF step init run'])
qed

lemma run_scan_invariant:
  assumes step: "\<And>root below nfs st entries st1.
      J st \<Longrightarrow>
      scan_files e (effective_ignore_patterns ips) (read_gitignore tree use_gi) skip root
        (folder_rel_path below) nfs ([], st) = Returns (entries, st1) \<Longrightarrow>
      J (st1\<lparr>result := add_folder \<lparr>path = folder_rel_path below, files = entries\<rparr> (result st1)\<rparr>)"
    and init: "J (initial_state e target)"
    and run: "run_scan e tree target ips use_gi skip = Returns st"
  shows "J st"
proof -
  let ?ips = "effective_ignore_patterns ips" and ?gps = "read_gitignore tree use_gi"
  have folder: "J s'" if "J s" and "scan_folder e ?ips ?gps skip visit s = Returns s'"
    for visit s s'
  proof -
    obtain root below nfs where v: "visit = (root, below, nfs)" by (cases visit)
    from that(2) [unfolded v] show ?thesis
    proof (cases rule: scan_folder_cases)
      case ignored
      then show ?thesis using that(1) by simp
    next
      case (scanned entries s1)
      show ?thesis unfolding scanned(3) using that(1) scanned(2) by (rule step)
    qed
  qed
  have run': "scan_folders e ?ips ?gps skip (walk ?ips target [] tree) (initial_state e target)
      = Returns st"
    using run by (simp add: run_scan_def Let_def)
  show ?thesis
    by (rule scan_folders_invariant [where J = J, OF folder init run'])
qed

subsection \<open>Counts, identifiers, opened files\<close>

lemma add_folder_counts: "counts_ok r \<Longrightarrow> counts_ok (add_folder fe r)"
  by (simp add: counts_ok_def add_folder_def)

lemma all_entries_add_folder:
  "all_entries (add_folder fe r) = all_entries r @ files fe"
  by (simp add: all_entries_def add_folder_def)

lemma scan_files_ids:
  assumes "ids_ok fs st"
    and "scan_files e ips gps skip root rel nfs (fs, st) = Returns (fs', st')"
  shows "ids_ok fs' st'"
proof (rule scan_files_invariant [where I = ids_ok, OF _ assms])
  fix name f fs0 st0 fs1 st1
  assume inv: "ids_ok fs0 st0"
    and one: "scan_file e ips gps skip root rel (name, f) (fs0, st0) = Returns (fs1, st1)"
  from one show "ids_ok fs1 st1"
  proof (cases rule: scan_file_cases)
    case skipped
    then show ?thesis using inv by simp
  next
    case (kept fid calls)
    have "fid \<notin> used_ids st0" using kept(2) by (rule fresh_uuid_fresh)
    then show ?thesis using inv unfolding kept(3,4) ids_ok_def by auto
  qed
qed

lemma scan_files_nothing_opened:
  assumes "hash_opened st = []"
    and "scan_files e ips gps True root rel nfs (fs, st) = Returns (fs', st')"
  shows "hash_opened st' = []"
proof (rule scan_files_invariant [where I = "\<lambda>fs s. hash_opened s = []", OF _ assms])
  fix name f fs0 st0 fs1 st1
  assume inv: "hash_opened st0 = []"
    and one: "scan_file e ips gps True root rel (name, f) (fs0, st0) = Returns (fs1, st1)"
  from one show "hash_opened st1 = []"
    by (cases rule: scan_file_cases) (simp_all add: inv make_entry_skipped)
qed

subsection \<open>The shape of the manifest\<close>

lemma scan_files_names:
  assumes "scan_files e ips gps skip root rel nfs (fs, st) = Returns (fs', st')"
  shows "map file_name fs' = map file_name fs @ map fst (filter (file_kept e ips gps root rel) nfs)"
  using assms
proof (induction nfs arbitrary: fs st)
  case Nil
  then show ?case by simp
next
  case (Cons nf nfs)
  obtain name f where nf: "nf = (name, f)" by (cases nf)
  from Cons.prems obtain fs1 st1 where
    one: "scan_file e ips gps skip root rel (name, f) (fs, st) = Returns (fs1, st1)"
    and rest: "scan_files e ips gps skip root rel nfs (fs1, st1) = Returns (fs', st')"
    unfolding nf by (cases "scan_file e ips gps skip root rel (name, f) (fs, st)") auto
  from one show ?case
  proof (cases rule: scan_file_cases)
    case skipped
    then show ?thesis using Cons.IH [OF rest] by (simp add: nf)
  next
    case (kept fid calls)
    then show ?thesis using Cons.IH [OF rest] by (simp add: nf)
  qed
qed

lemma scan_folder_shape:
  assumes "scan_folder e ips gps skip visit st = Returns st'"
  shows "map folder_shape (folders (result st')) =
         map folder_shape (folders (result st)) @
         (if folder_kept e ips gps visit then [visit_shape e ips gps visit] else [])"
proof -
  obtain root below nfs where v: "visit = (root, below, nfs)" by (cases visit)
  from assms [unfolded v] show ?thesis
  proof (cases rule: scan_folder_cases)
    case ignored
    then show ?thesis by (simp add: v folder_kept_def)
  next
    case (scanned entries s1)
    have names: "map file_name entries =
        map fst (filter (file_kept e ips gps root (folder_rel_path below)) nfs)"
      using scan_files_names [OF scanned(2)] by simp
    have res: "result s1 = result st" using scan_files_result [OF scanned(2)] .
    have "entries = [] \<longleftrightarrow> filter (file_kept e ips gps root (folder_rel_path below)) nfs = []"
      using names by (metis map_is_Nil_conv)
    then have "entries \<noteq> [] \<longleftrightarrow> list_ex (file_kept e ips gps root (folder_rel_path below)) nfs"
      by (simp add: list_ex_iff filter_empty_conv)
    then show ?thesis
      using scanned(1) names res
      by (simp add: scanned(3) v folder_kept_def add_folder_def folder_shape_def visit_shape_def)
  qed
qed

lemma scan_folders_shape:
  assumes "scan_folders e ips gps skip visits st = Returns st'"
  shows "map folder_shape (folders (result st')) =
         map folder_shape (folders (result st)) @
         map (visit_shape e ips gps) (filter (folder_kept e ips gps) visits)"
  using assms
proof (induction visits arbitrary: st)
  case Nil
  then show ?case by simp
next
  case (Cons visit visits)
  from Cons.prems obtain st1 where
    one: "scan_folder e ips gps skip visit st = Returns st1"
    and rest: "scan_folders e ips gps skip visits st1 = Returns st'"
    by (cases "scan_folder e ips gps skip visit st") auto
  show ?case
    using Cons.IH [OF rest] scan_folder_shape [OF one] by simp
qed

lemma scan_folders_all_ignored:
  assumes "\<forall>v \<in> set visits. any_pattern_in ips (fst v)"
  shows "scan_folders e ips gps skip visits st = Returns st"
  using assms
proof (induction visits)
  case Nil
  then show ?case by simp
next
  case (Cons v visits)
  obtain root below nfs where v: "v = (root, below, nfs)" by (cases v)
  have "scan_folder e ips gps skip v st = Returns st"
    using Cons.prems by (simp add: v scan_folder_def)
  then show ?case using Cons by simp
qed

subsection \<open>The scan returns\<close>

text \<open>
  When \<^verbatim>\<open>re.match\<close> raises on no pattern and \<^verbatim>\<open>uuid4\<close> never repeats a value, the scan
  of any tree returns a manifest, whatever can or cannot be read in the tree.
\<close>

lemma scan_files_returns:
  assumes re: "\<forall>p s. re_match e p s \<noteq> None" and inj: "inj (uuid4 e)"
    and "finite (used_ids st)"
  shows "\<exists>fs' st'. scan_files e ips gps skip root rel nfs (fs, st) = Returns (fs', st') \<and>
           finite (used_ids st')"
  using assms(3)
proof (induction nfs arbitrary: fs st)
  case Nil
  then show ?case by simp
next
  case (Cons nf nfs)
  obtain name f where nf: "nf = (name, f)" by (cases nf)
  have "\<exists>fs1 st1. scan_file e ips gps skip root rel (name, f) (fs, st) = Returns (fs1, st1) \<and>
      finite (used_ids st1)"
  proof (cases "file_kept e ips gps root rel (name, f)")
    case True
    obtain fid calls where "fresh_uuid (uuid4 e) (used_ids st) (uuid_calls st) = Some (fid, calls)"
      using fresh_uuid_returns [OF inj Cons.prems] by blast
    then show ?thesis using Cons.prems by (simp add: scan_file_kept [OF True])
  next
    case False
    obtain b where b: "is_ignored (re_match e) (path_join root name) (file_rel_path rel name) gps
        = Returns b"
      using is_ignored_total [OF re] by blast
    have "scan_file e ips gps skip root rel (name, f) (fs, st) = Returns (fs, st)"
      using False b by (cases b) (auto simp: scan_file_def file_kept_def Let_def)
    then show ?thesis using Cons.prems by simp
  qed
  then obtain fs1 st1 where
    one: "scan_file e ips gps skip root rel (name, f) (fs, st) = Returns (fs1, st1)"
    and fin: "finite (used_ids st1)" by blast
  from Cons.IH [OF fin, of fs1] one show ?case by (simp add: nf)
qed

lemma scan_folders_returns:
  assumes re: "\<forall>p s. re_match e p s \<noteq> None" and inj: "inj (uuid4 e)"
    and "finite (used_ids st)"
  shows "\<exists>st'. scan_folders e ips gps skip visits st = Returns st' \<and> finite (used_ids st')"
  using assms(3)
proof (induction visits arbitrary: st)
  case Nil
  then show ?case by simp
next
  case (Cons v visits)
  obtain root below nfs where v: "v = (root, below, nfs)" by (cases v)
  have "\<exists>st1. scan_folder e ips gps skip v st = Returns st1 \<and> finite (used_ids st1)"
  proof (cases "any_pattern_in ips root")
    case True
    then show ?thesis using Cons.prems by (simp add: v scan_folder_def)
  next
    case False
    obtain entries s1 where
      "scan_files e ips gps skip root (folder_rel_path below) nfs ([], st) = Returns (entries, s1)"
      and "finite (used_ids s1)"
      using scan_files_returns [OF re inj Cons.prems] by blast
    then show ?thesis using False by (simp add: v scan_folder_def Let_def)
  qed
  then obtain st1 where one: "scan_folder e ips gps skip v st = Returns st1"
    and fin: "finite (used_ids st1)" by blast
  from Cons.IH [OF fin] one show ?case by simp
qed

lemma scan_directory_returns:
  assumes "\<forall>p s. re_match e p s \<noteq> None" and "inj (uuid4 e)"
  shows "\<exists>r. scan_directory e tree target_dir ignore_patterns use_gitignore skip_hash = Returns r"
proof -
  have "finite (used_ids (initial_state e target_dir))" by (simp add: initial_state_def)
  from scan_folders_returns [OF assms this]
  obtain st where "run_scan e tree target_dir ignore_patterns use_gitignore skip_hash = Returns st"
    unfolding run_scan_def Let_def by blast
  then show ?thesis by (simp add: scan_directory_def)
qed

section \<open>The claims\<close>

text \<open>
  C1. When more than one rule of the ignore file matches a path, the last matching rule
  decides; with \<^verbatim>\<open>*.tmp\<close> followed by \<^verbatim>\<open>!keep.tmp\<close> the file \<^verbatim>\<open>keep.tmp\<close> is retained and
  \<^verbatim>\<open>other.tmp\<close> is excluded. The code decides at the first matching rule
  (\<open>match_patterns_first_match\<close>): on that ignore file \<^verbatim>\<open>is_ignored\<close> returns \<^verbatim>\<open>True\<close> for
  \<^verbatim>\<open>keep.tmp\<close>, and the manifest of a tree with \<^verbatim>\<open>keep.tmp\<close>, \<^verbatim>\<open>other.tmp\<close> and
  \<^verbatim>\<open>notes.txt\<close> holds \<^verbatim>\<open>notes.txt\<close> alone.
\<close>

theorem negation_after_match_is_dead:
  "is_ignored py_re_match ''/srv/project/keep.tmp'' ''keep.tmp'' [''*.tmp'', ''!keep.tmp'']
     = Returns True \<and>
   map_outcome (\<lambda>r. map (\<lambda>fe. (path fe, map file_name (files fe))) (folders r))
     (scan_directory demo_env tmp_tree ''/srv/project'' None True False)
     = Returns [([], [''notes.txt''])]"
  by code_simp

text \<open>
  C2. With \<^verbatim>\<open>build/\<close> in the ignore file and a tree holding \<^verbatim>\<open>build/output.bin\<close> and
  \<^verbatim>\<open>src/main.txt\<close>, the manifest has no record under \<^verbatim>\<open>build/\<close>. The code builds the
  expression \<^verbatim>\<open>^.*build$\<close> and matches it against file paths only, so
  \<^verbatim>\<open>./build/output.bin\<close> is kept: the manifest has a folder \<^verbatim>\<open>build\<close> with
  \<^verbatim>\<open>output.bin\<close> in it.
\<close>

theorem directory_rule_keeps_files:
  "map_outcome (\<lambda>r. map (\<lambda>fe. (path fe, map file_name (files fe))) (folders r))
     (scan_directory demo_env build_tree ''/srv/project'' None True False)
     = Returns [(''build'', [''output.bin'']), (''src'', [''main.txt''])]"
  by code_simp

text \<open>
  C3, as amended. For a file that passes both filters and gets an identifier: when
  \<^verbatim>\<open>os.stat\<close> fails, the entry made has hash \<^verbatim>\<open>"error"\<close>, size 0 and a non-empty
  \<open>security_observations\<close>; when the metadata can be read and the content cannot (and
  hashing is not skipped), the entry has hash \<^verbatim>\<open>"hash_error"\<close>, the size \<^verbatim>\<open>os.stat\<close>
  reports and an empty \<open>security_observations\<close>. In both cases the step returns with the
  entry appended and the loop goes on with the remaining files.
\<close>

theorem unreadable_file_entry:
  assumes "file_kept e ignore_patterns gitignore_patterns root rel_path (filename, f)"
    and "fresh_uuid (uuid4 e) (used_ids st) (uuid_calls st) = Some (fid, calls)"
  shows "\<exists>entry st'.
     scan_file e ignore_patterns gitignore_patterns skip_hash root rel_path (filename, f) (fs, st)
       = Returns (fs @ [entry], st') \<and>
     scan_files e ignore_patterns gitignore_patterns skip_hash root rel_path ((filename, f) # rest) (fs, st)
       = scan_files e ignore_patterns gitignore_patterns skip_hash root rel_path rest (fs @ [entry], st') \<and>
     (f_stat f = None \<longrightarrow>
        hash (metadata entry) = ''error'' \<and> size_bytes (metadata entry) = 0 \<and>
        security_observations entry \<noteq> []) \<and>
     (\<forall>s c m. f_stat f = Some s \<and> isoformat e (st_ctime s) = Some c \<and>
        isoformat e (st_mtime s) = Some m \<and> f_content f = None \<and> \<not> skip_hash \<longrightarrow>
        hash (metadata entry) = ''hash_error'' \<and> size_bytes (metadata entry) = st_size s \<and>
        security_observations entry = [])"
proof -
  let ?m = "make_entry e skip_hash fid (path_join root filename) rel_path filename
              (file_type_of e filename) f (hash_opened st)"
  let ?st = "st\<lparr>used_ids := insert fid (used_ids st), uuid_calls := calls, hash_opened := snd ?m\<rparr>"
  have one: "scan_file e ignore_patterns gitignore_patterns skip_hash root rel_path (filename, f) (fs, st)
      = Returns (fs @ [fst ?m], ?st)"
    using assms(2) by (simp add: scan_file_kept [OF assms(1)])
  have err: "hash (metadata (fst ?m)) = ''error'' \<and> size_bytes (metadata (fst ?m)) = 0 \<and>
      security_observations (fst ?m) \<noteq> []" if "f_stat f = None"
    using that by (simp add: make_entry_def error_entry_def)
  have herr: "hash (metadata (fst ?m)) = ''hash_error'' \<and> size_bytes (metadata (fst ?m)) = st_size s \<and>
      security_observations (fst ?m) = []"
    if "f_stat f = Some s" "isoformat e (st_ctime s) = Some c" "isoformat e (st_mtime s) = Some m"
      "f_content f = None" "\<not> skip_hash" for s c m
    using that by (simp add: make_entry_def ok_entry_def calculate_file_hash_def)
  show ?thesis
    using one err herr by (intro exI [of _ "fst ?m"] exI [of _ ?st]) auto
qed

text \<open>The two cases of C3 on a dangling link and on a file without read permission.\<close>

theorem unreadable_file_entry_witness:
  "(\<exists>entry st'.
      scan_file demo_env default_ignore_patterns [] False ''/srv/project/docs'' ''docs''
        (''dangling'', dangling_file) ([], initial_state demo_env ''/srv/project'')
        = Returns ([entry], st') \<and>
      hash (metadata entry) = ''error'' \<and> size_bytes (metadata entry) = 0 \<and>
      security_observations entry \<noteq> []) \<and>
   (\<exists>entry st'.
      scan_file demo_env default_ignore_patterns [] False ''/srv/project/docs'' ''docs''
        (''secret.key'', unreadable_file) ([], initial_state demo_env ''/srv/project'')
        = Returns ([entry], st') \<and>
      hash (metadata entry) = ''hash_error'' \<and> size_bytes (metadata entry) = 7 \<and>
      security_observations entry = [])"
proof -
  let ?st = "initial_state demo_env ''/srv/project''"
  have k1: "file_kept demo_env default_ignore_patterns [] ''/srv/project/docs'' ''docs''
      (''dangling'', dangling_file)" by code_simp
  have k2: "file_kept demo_env default_ignore_patterns [] ''/srv/project/docs'' ''docs''
      (''secret.key'', unreadable_file)" by code_simp
  have u: "fresh_uuid (uuid4 demo_env) (used_ids ?st) (uuid_calls ?st) = Some (''u'', 1)"
    by code_simp
  have d: "f_stat dangling_file = None" by (simp add: dangling_file_def)
  have s: "f_stat unreadable_file = Some \<lparr>st_ctime = 0, st_mtime = 0, st_size = 7\<rparr> \<and>
      isoformat demo_env (st_ctime \<lparr>st_ctime = 0, st_mtime = 0, st_size = 7\<rparr>) = Some ''2024-05-01T10:00:00'' \<and>
      isoformat demo_env (st_mtime \<lparr>st_ctime = 0, st_mtime = 0, st_size = 7\<rparr>) = Some ''2024-05-01T10:00:00'' \<and>
      f_content unreadable_file = None \<and> \<not> False"
    by (simp add: unreadable_file_def demo_env_def)
  show ?thesis
    using unreadable_file_entry [OF k1 u, of False "[]" "[]"]
      unreadable_file_entry [OF k2 u, of False "[]" "[]"] d s
    by (simp, blast)
qed

text \<open>
  C3 as stated fails: the file \<^verbatim>\<open>secret.key\<close>, whose content cannot be read, gets hash
  \<^verbatim>\<open>"hash_error"\<close>, size 7 and an empty \<open>security_observations\<close>.
\<close>

theorem unreadable_content_counterexample:
  "map_outcome (\<lambda>r. map (\<lambda>en. (file_name en, hash (metadata en), size_bytes (metadata en),
                                 security_observations en))
                      (concat (map files (folders r))))
     (scan_directory demo_env degraded_tree ''/srv/project'' None True False)
     = Returns [(''secret.key'', ''hash_error'', 7, []),
                (''dangling'', ''error'', 0, ''File could not be processed, may require manual review''),
                (''readme.md'', ''sha256:hi'', 2, [])]"
  by code_simp

text \<open>
  C4. In the manifest a scan returns, \<open>total_folders\<close> is the number of folder entries and
  \<open>total_files\<close> is the sum of the lengths of their file lists.
\<close>

theorem scan_totals_match_folders:
  assumes "scan_directory e tree target_dir ignore_patterns use_gitignore skip_hash = Returns r"
  shows "total_folders (scan_info r) = length (folders r) \<and>
         total_files (scan_info r) = sum_list (map (\<lambda>fe. length (files fe)) (folders r))"
proof -
  from assms obtain st where
    run: "run_scan e tree target_dir ignore_patterns use_gitignore skip_hash = Returns st"
    and r: "r = result st"
    by (auto simp: scan_directory_run)
  have "counts_ok (result st)"
  proof (rule run_scan_invariant [where J = "\<lambda>s. counts_ok (result s)", OF _ _ run])
    fix root below nfs s entries s1
    assume "counts_ok (result s)"
      and "scan_files e (effective_ignore_patterns ignore_patterns)
             (read_gitignore tree use_gitignore) skip_hash root (folder_rel_path below) nfs ([], s)
           = Returns (entries, s1)"
    then have "counts_ok (result s1)" by (simp add: scan_files_result)
    then show "counts_ok (result (s1\<lparr>result :=
        add_folder \<lparr>path = folder_rel_path below, files = entries\<rparr> (result s1)\<rparr>))"
      by (simp add: add_folder_counts)
  next
    show "counts_ok (result (initial_state e target_dir))"
      by (simp add: counts_ok_def initial_state_def)
  qed
  then show ?thesis by (simp add: counts_ok_def r)
qed

text \<open>C4 on the tree with \<^verbatim>\<open>build\<close> and \<^verbatim>\<open>src\<close>: two folders, two files.\<close>

theorem scan_totals_match_folders_witness:
  "\<exists>r. scan_directory demo_env build_tree ''/srv/project'' None True False = Returns r \<and>
       total_folders (scan_info r) = 2 \<and> length (folders r) = 2 \<and>
       total_files (scan_info r) = 2 \<and>
       sum_list (map (\<lambda>fe. length (files fe)) (folders r)) = 2"
proof -
  have "map_outcome (\<lambda>r. (total_folders (scan_info r), total_files (scan_info r)))
      (scan_directory demo_env build_tree ''/srv/project'' None True False) = Returns (2, 2)"
    by code_simp
  then obtain r where
    r: "scan_directory demo_env build_tree ''/srv/project'' None True False = Returns r"
    and v: "total_folders (scan_info r) = 2" "total_files (scan_info r) = 2"
    by (auto dest: map_outcome_Returns)
  from scan_totals_match_folders [OF r] r v show ?thesis by auto
qed

text \<open>
  C5. No folder entry of the manifest has an empty file list, also when the directory
  exists and holds only ignored entries.
\<close>

theorem no_empty_folder_entry:
  assumes "scan_directory e tree target_dir ignore_patterns use_gitignore skip_hash = Returns r"
  shows "\<forall>fe \<in> set (folders r). files fe \<noteq> []"
proof -
  from assms obtain st where
    run: "run_scan e tree target_dir ignore_patterns use_gitignore skip_hash = Returns st"
    and r: "r = result st"
    by (auto simp: scan_directory_run)
  have "\<forall>fe \<in> set (folders (result st)). files fe \<noteq> []"
  proof (rule run_scan_invariant [where J = "\<lambda>s. \<forall>fe \<in> set (folders (result s)). files fe \<noteq> []", OF _ _ run])
    fix root below nfs s entries s1
    assume "\<forall>fe \<in> set (folders (result s)). files fe \<noteq> []"
      and "scan_files e (effective_ignore_patterns ignore_patterns)
             (read_gitignore tree use_gitignore) skip_hash root (folder_rel_path below) nfs ([], s)
           = Returns (entries, s1)"
    then have "\<forall>fe \<in> set (folders (result s1)). files fe \<noteq> []" by (simp add: scan_files_result)
    then show "\<forall>fe \<in> set (folders (result (s1\<lparr>result :=
        add_folder \<lparr>path = folder_rel_path below, files = entries\<rparr> (result s1)\<rparr>))). files fe \<noteq> []"
      by (auto simp: add_folder_def)
  next
    show "\<forall>fe \<in> set (folders (result (initial_state e target_dir))). files fe \<noteq> []"
      by (simp add: initial_state_def)
  qed
  then show ?thesis by (simp add: r)
qed

text \<open>
  C5 on a tree whose directory \<^verbatim>\<open>logs\<close> holds only \<^verbatim>\<open>a.log\<close>, excluded by the rule
  \<^verbatim>\<open>*.log\<close>: the manifest has the folder \<^verbatim>\<open>src\<close> alone.
\<close>

theorem no_empty_folder_entry_witness:
  "\<exists>r. scan_directory demo_env (logs_tree ''*.log'') ''/srv/project'' None True False = Returns r \<and>
       map path (folders r) = [''src''] \<and>
       list_all (\<lambda>fe. files fe \<noteq> []) (folders r)"
proof -
  have "map_outcome (\<lambda>r. map path (folders r))
      (scan_directory demo_env (logs_tree ''*.log'') ''/srv/project'' None True False)
      = Returns [''src'']"
    by code_simp
  then obtain r where
    r: "scan_directory demo_env (logs_tree ''*.log'') ''/srv/project'' None True False = Returns r"
    and v: "map path (folders r) = [''src'']"
    by (auto dest: map_outcome_Returns)
  from no_empty_folder_entry [OF r] r v show ?thesis by (auto simp: list_all_iff)
qed

text \<open>
  C6. The identifiers of the file entries of one manifest, error entries included, are
  pairwise distinct.
\<close>

theorem file_ids_distinct:
  assumes "scan_directory e tree target_dir ignore_patterns use_gitignore skip_hash = Returns r"
  shows "distinct (map file_id (concat (map files (folders r))))"
proof -
  from assms obtain st where
    run: "run_scan e tree target_dir ignore_patterns use_gitignore skip_hash = Returns st"
    and r: "r = result st"
    by (auto simp: scan_directory_run)
  have "ids_ok [] st"
  proof (rule run_scan_invariant [where J = "ids_ok []", OF _ _ run])
    fix root below nfs s entries s1
    assume "ids_ok [] s"
      and "scan_files e (effective_ignore_patterns ignore_patterns)
             (read_gitignore tree use_gitignore) skip_hash root (folder_rel_path below) nfs ([], s)
           = Returns (entries, s1)"
    then have "ids_ok entries s1" by (rule scan_files_ids)
    then show "ids_ok [] (s1\<lparr>result :=
        add_folder \<lparr>path = folder_rel_path below, files = entries\<rparr> (result s1)\<rparr>)"
      by (simp add: ids_ok_def all_entries_add_folder)
  next
    show "ids_ok [] (initial_state e target_dir)"
      by (simp add: ids_ok_def all_entries_def initial_state_def)
  qed
  then show ?thesis by (simp add: ids_ok_def all_entries_def r)
qed

text \<open>C6 on a tree with three files, one of them with an error entry.\<close>

theorem file_ids_distinct_witness:
  "\<exists>r. scan_directory demo_env degraded_tree ''/srv/project'' None True False = Returns r \<and>
       length (concat (map files (folders r))) = 3 \<and>
       distinct (map file_id (concat (map files (folders r))))"
proof -
  have "map_outcome (\<lambda>r. length (concat (map files (folders r))))
      (scan_directory demo_env degraded_tree ''/srv/project'' None True False) = Returns 3"
    by code_simp
  then obtain r where
    r: "scan_directory demo_env degraded_tree ''/srv/project'' None True False = Returns r"
    and v: "length (concat (map files (folders r))) = 3"
    by (auto dest: map_outcome_Returns)
  from file_ids_distinct [OF r] r v show ?thesis by auto
qed

text \<open>
  C7, as amended. With \<open>skip_hash\<close> set, \<^verbatim>\<open>calculate_file_hash\<close> opens no file, and every
  file entry has hash \<^verbatim>\<open>"skipped"\<close> or is the error entry (hash \<^verbatim>\<open>"error"\<close>) that the scan
  makes for a file whose metadata cannot be read.
\<close>

theorem skip_hash_opens_nothing:
  assumes "run_scan e tree target_dir ignore_patterns use_gitignore True = Returns st"
  shows "hash_opened st = [] \<and>
         (\<forall>fe \<in> set (folders (result st)). \<forall>en \<in> set (files fe).
            hash (metadata en) = ''skipped'' \<or>
            en = error_entry (file_id en) (folder en) (file_name en) (file_type en))"
proof
  show "hash_opened st = []"
  proof (rule run_scan_invariant [where J = "\<lambda>s. hash_opened s = []", OF _ _ assms])
    fix root below nfs s entries s1
    assume "hash_opened s = []"
      and "scan_files e (effective_ignore_patterns ignore_patterns)
             (read_gitignore tree use_gitignore) True root (folder_rel_path below) nfs ([], s)
           = Returns (entries, s1)"
    then have "hash_opened s1 = []" by (rule scan_files_nothing_opened)
    then show "hash_opened (s1\<lparr>result :=
        add_folder \<lparr>path = folder_rel_path below, files = entries\<rparr> (result s1)\<rparr>) = []"
      by simp
  next
    show "hash_opened (initial_state e target_dir) = []" by (simp add: initial_state_def)
  qed
next
  have "skipped_or_error (fst (make_entry e True fid fp rel name (file_type_of e name) f opened))"
    for fid fp rel name f opened
    using make_entry_skipped [of e fid fp rel name "file_type_of e name" f opened]
    by (auto simp: skipped_or_error_def dest: error_entry_fields)
  then have "list_all (\<lambda>fe. list_all skipped_or_error (files fe)) (folders (result st))"
    using assms by (rule run_scan_entries)
  then show "\<forall>fe \<in> set (folders (result st)). \<forall>en \<in> set (files fe).
            hash (metadata en) = ''skipped'' \<or>
            en = error_entry (file_id en) (folder en) (file_name en) (file_type en)"
    by (simp add: list_all_iff skipped_or_error_def)
qed

text \<open>C7 as amended on the tree with a dangling link.\<close>

theorem skip_hash_opens_nothing_witness:
  "\<exists>st. run_scan demo_env degraded_tree ''/srv/project'' None True True = Returns st \<and>
        length (concat (map files (folders (result st)))) = 3 \<and>
        hash_opened st = [] \<and>
        list_all (\<lambda>fe. list_all (\<lambda>en. hash (metadata en) = ''skipped'' \<or>
            en = error_entry (file_id en) (folder en) (file_name en) (file_type en)) (files fe))
          (folders (result st))"
proof -
  have "map_outcome (\<lambda>st. length (concat (map files (folders (result st)))))
      (run_scan demo_env degraded_tree ''/srv/project'' None True True) = Returns 3"
    by code_simp
  then obtain st where
    st: "run_scan demo_env degraded_tree ''/srv/project'' None True True = Returns st"
    and v: "length (concat (map files (folders (result st)))) = 3"
    by (auto dest: map_outcome_Returns)
  from skip_hash_opens_nothing [OF st] st v show ?thesis by (auto simp: list_all_iff)
qed

text \<open>
  C7 as stated fails: with \<open>skip_hash\<close> set, the entry of the dangling link has hash
  \<^verbatim>\<open>"error"\<close>.
\<close>

theorem skip_hash_error_counterexample:
  "map_outcome (\<lambda>r. map (\<lambda>en. (file_name en, hash (metadata en))) (concat (map files (folders r))))
     (scan_directory demo_env degraded_tree ''/srv/project'' None True True)
     = Returns [(''secret.key'', ''skipped''), (''dangling'', ''error''), (''readme.md'', ''skipped'')]"
  by code_simp

text \<open>
  C8, as amended. Every file entry of the manifest has an empty description or is the
  error entry, whose description is \<^verbatim>\<open>"Error processing file"\<close>.
\<close>

theorem description_blank_or_error:
  assumes "scan_directory e tree target_dir ignore_patterns use_gitignore skip_hash = Returns r"
  shows "\<forall>fe \<in> set (folders r). \<forall>en \<in> set (files fe).
            description en = [] \<or>
            en = error_entry (file_id en) (folder en) (file_name en) (file_type en)"
proof -
  from assms obtain st where
    run: "run_scan e tree target_dir ignore_patterns use_gitignore skip_hash = Returns st"
    and r: "r = result st"
    by (auto simp: scan_directory_run)
  have "blank_or_error (fst (make_entry e skip_hash fid fp rel name (file_type_of e name) f opened))"
    for fid fp rel name f opened
    using make_entry_description [of e skip_hash fid fp rel name "file_type_of e name" f opened]
    by (auto simp: blank_or_error_def dest: error_entry_fields)
  then have "list_all (\<lambda>fe. list_all blank_or_error (files fe)) (folders (result st))"
    using run by (rule run_scan_entries)
  then show ?thesis by (simp add: list_all_iff blank_or_error_def r)
qed

text \<open>C8 as amended on the tree with a dangling link.\<close>

theorem description_blank_or_error_witness:
  "\<exists>r. scan_directory demo_env degraded_tree ''/srv/project'' None True False = Returns r \<and>
       map (\<lambda>en. file_name en) (concat (map files (folders r))) = [''secret.key'', ''dangling'', ''readme.md''] \<and>
       list_all (\<lambda>fe. list_all (\<lambda>en. description en = [] \<or>
            en = error_entry (file_id en) (folder en) (file_name en) (file_type en)) (files fe))
          (folders r)"
proof -
  have "map_outcome (\<lambda>r. map (\<lambda>en. file_name en) (concat (map files (folders r))))
      (scan_directory demo_env degraded_tree ''/srv/project'' None True False)
      = Returns [''secret.key'', ''dangling'', ''readme.md'']"
    by code_simp
  then obtain r where
    r: "scan_directory demo_env degraded_tree ''/srv/project'' None True False = Returns r"
    and v: "map (\<lambda>en. file_name en) (concat (map files (folders r))) = [''secret.key'', ''dangling'', ''readme.md'']"
    by (auto dest: map_outcome_Returns)
  from description_blank_or_error [OF r] r v show ?thesis by (auto simp: list_all_iff)
qed

text \<open>
  C8 as stated fails: the entry of the dangling link has the description
  \<^verbatim>\<open>"Error processing file"\<close>.
\<close>

theorem description_error_counterexample:
  "map_outcome (\<lambda>r. map (\<lambda>en. (file_name en, description en)) (concat (map files (folders r))))
     (scan_directory demo_env degraded_tree ''/srv/project'' None True False)
     = Returns [(''secret.key'', []), (''dangling'', ''Error processing file''), (''readme.md'', [])]"
  by code_simp

text \<open>
  C9, as amended. The directories visited are those of \<open>walk\<close>, which depends on the tree,
  the root path and the substring ignore list only; the rules of the ignore file are
  applied to file paths. The folder entries of the manifest are, in walk order, those of
  the visited directories whose path has no ignore substring in it and that keep at least
  one file after both filters, each with the names of the files kept; so the folder
  entries depend on the rules through the files the rules exclude.
\<close>

theorem folders_follow_walk:
  assumes "scan_directory e tree target_dir ignore_patterns use_gitignore skip_hash = Returns r"
  shows "map (\<lambda>fe. (path fe, map file_name (files fe))) (folders r) =
         map (visit_shape e (effective_ignore_patterns ignore_patterns)
                (read_gitignore tree use_gitignore))
           (filter (folder_kept e (effective_ignore_patterns ignore_patterns)
                      (read_gitignore tree use_gitignore))
              (walk (effective_ignore_patterns ignore_patterns) target_dir [] tree))"
proof -
  from assms obtain st where
    run: "run_scan e tree target_dir ignore_patterns use_gitignore skip_hash = Returns st"
    and r: "r = result st"
    by (auto simp: scan_directory_run)
  have "scan_folders e (effective_ignore_patterns ignore_patterns)
      (read_gitignore tree use_gitignore) skip_hash
      (walk (effective_ignore_patterns ignore_patterns) target_dir [] tree)
      (initial_state e target_dir) = Returns st"
    using run by (simp add: run_scan_def Let_def)
  from scan_folders_shape [OF this] show ?thesis
    by (simp add: r initial_state_def folder_shape_def [abs_def])
qed

text \<open>
  C9 as amended on the tree whose directory \<^verbatim>\<open>logs\<close> holds only \<^verbatim>\<open>a.log\<close>: three
  directories are visited and one folder entry is made.
\<close>

theorem folders_follow_walk_witness:
  "\<exists>r. scan_directory demo_env (logs_tree ''*.log'') ''/srv/project'' None True False = Returns r \<and>
       map fst (walk default_ignore_patterns ''/srv/project'' [] (logs_tree ''*.log''))
         = [''/srv/project'', ''/srv/project/logs'', ''/srv/project/src''] \<and>
       map (\<lambda>fe. (path fe, map file_name (files fe))) (folders r) = [(''src'', [''main.txt''])]"
proof -
  have "is_returns (scan_directory demo_env (logs_tree ''*.log'') ''/srv/project'' None True False)"
    by code_simp
  then obtain r where
    r: "scan_directory demo_env (logs_tree ''*.log'') ''/srv/project'' None True False = Returns r"
    by (auto simp: is_returns_def)
  have w: "map fst (walk default_ignore_patterns ''/srv/project'' [] (logs_tree ''*.log''))
         = [''/srv/project'', ''/srv/project/logs'', ''/srv/project/src'']"
    by code_simp
  have "map (visit_shape demo_env (effective_ignore_patterns None)
                (read_gitignore (logs_tree ''*.log'') True))
           (filter (folder_kept demo_env (effective_ignore_patterns None)
                      (read_gitignore (logs_tree ''*.log'') True))
              (walk (effective_ignore_patterns None) ''/srv/project'' [] (logs_tree ''*.log'')))
        = [(''src'', [''main.txt''])]"
    by code_simp
  with folders_follow_walk [OF r] r w show ?thesis by auto
qed

text \<open>
  C9 as stated fails: two trees that differ in the content of the ignore file only give
  different folder entries.
\<close>

theorem folder_entries_depend_on_rules_counterexample:
  "map_outcome (\<lambda>r. map path (folders r))
     (scan_directory demo_env (logs_tree ''*.log'') ''/srv/project'' None True False)
     = Returns [''src''] \<and>
   map_outcome (\<lambda>r. map path (folders r))
     (scan_directory demo_env (logs_tree ''*.bak'') ''/srv/project'' None True False)
     = Returns [''logs'', ''src'']"
  by code_simp

text \<open>
  C10. When an ignore substring occurs in the root path given to the scan, every visited
  directory is skipped and the manifest has no folder and no file.
\<close>

theorem ignored_root_empties_manifest:
  assumes "any_pattern_in (effective_ignore_patterns ignore_patterns) target_dir"
    and "valid_tree tree"
  shows "scan_directory e tree target_dir ignore_patterns use_gitignore skip_hash =
         Returns \<lparr>scan_info = \<lparr>target_directory = abspath e target_dir,
                                total_folders = 0, total_files = 0\<rparr>,
                  folders = []\<rparr>"
proof -
  let ?ips = "effective_ignore_patterns ignore_patterns"
  have "\<forall>v \<in> set (walk ?ips target_dir [] tree). any_pattern_in ?ips (fst v)"
    using walk_roots(1) [OF assms(2)] any_pattern_in_prefix [OF assms(1)] by blast
  then have "run_scan e tree target_dir ignore_patterns use_gitignore skip_hash =
      Returns (initial_state e target_dir)"
    by (simp add: run_scan_def Let_def scan_folders_all_ignored)
  then show ?thesis by (simp add: scan_directory_def initial_state_def)
qed

text \<open>C10 on a root path with \<^verbatim>\<open>venv\<close> in it, under the default ignore list.\<close>

theorem ignored_root_empties_manifest_witness:
  "any_pattern_in (effective_ignore_patterns None) ''/home/dev/venv/project'' \<and>
   valid_tree build_tree \<and>
   scan_directory demo_env build_tree ''/home/dev/venv/project'' None True False =
     Returns \<lparr>scan_info = \<lparr>target_directory = ''/home/dev/venv/project'',
                            total_folders = 0, total_files = 0\<rparr>,
              folders = []\<rparr>"
proof -
  have h1: "any_pattern_in (effective_ignore_patterns None) ''/home/dev/venv/project''"
    by code_simp
  have h2: "valid_tree build_tree" by code_simp
  have "abspath demo_env ''/home/dev/venv/project'' = ''/home/dev/venv/project''"
    by (simp add: demo_env_def)
  with ignored_root_empties_manifest [OF h1 h2, of demo_env True False] h1 h2
  show ?thesis by simp
qed

end
